theory Spec2Isabelle
  imports Main
begin

section \<open>JavaScript numbers and arrays, as far as ring-buffer.ts uses them\<close>

text \<open>
  The class \<^verbatim>\<open>RingBuffer<T>\<close> of \<^verbatim>\<open>src/ring-buffer.ts\<close> computes with
  JavaScript numbers. All arguments are taken to be integers; the only non-integer the
  code can then produce is \<^verbatim>\<open>NaN\<close>, from the remainder \<^verbatim>\<open>x % 0\<close>. Numbers are
  therefore unbounded integers together with \<^verbatim>\<open>NaN\<close> (the bound \<open>2^53\<close> of exact
  integers and the maximal array length are not modelled).
\<close>

datatype jsnum = Num int | NaN

fun js_add :: "jsnum \<Rightarrow> jsnum \<Rightarrow> jsnum" where
  "js_add (Num a) (Num b) = Num (a + b)"
| "js_add _ _ = NaN"

fun js_sub :: "jsnum \<Rightarrow> jsnum \<Rightarrow> jsnum" where
  "js_sub (Num a) (Num b) = Num (a - b)"
| "js_sub _ _ = NaN"

text \<open>
  The operator \<^verbatim>\<open>%\<close>: the remainder of the truncating division (its sign is the sign of
  the dividend), and \<^verbatim>\<open>NaN\<close> when the divisor is zero. No exception is raised.
\<close>

fun js_rem :: "jsnum \<Rightarrow> jsnum \<Rightarrow> jsnum" where
  "js_rem (Num a) (Num b) = (if b = 0 then NaN else Num (sgn a * (\<bar>a\<bar> mod \<bar>b\<bar>)))"
| "js_rem _ _ = NaN"

text \<open>The comparison \<^verbatim>\<open><=\<close>: false as soon as one side is \<^verbatim>\<open>NaN\<close>.\<close>

fun js_le :: "jsnum \<Rightarrow> jsnum \<Rightarrow> bool" where
  "js_le (Num a) (Num b) = (a \<le> b)"
| "js_le _ _ = False"

text \<open>\<^verbatim>\<open>Math.max\<close>: \<^verbatim>\<open>NaN\<close> as soon as one argument is \<^verbatim>\<open>NaN\<close>.\<close>

fun js_max :: "jsnum \<Rightarrow> jsnum \<Rightarrow> jsnum" where
  "js_max (Num a) (Num b) = Num (max a b)"
| "js_max _ _ = NaN"

text \<open>
  A JavaScript array: its indexed elements, where \<open>None\<close> is a hole (a slot that reads as
  \<^verbatim>\<open>undefined\<close>), and the properties stored under keys that are not array indices. The
  code writes \<^verbatim>\<open>this.buffer[this.pos]\<close>; with a position that is \<^verbatim>\<open>NaN\<close> or negative
  this sets the property \<^verbatim>\<open>"NaN"\<close> or \<^verbatim>\<open>"-1"\<close> of the array object and leaves its
  length alone.
\<close>

record 'a jsarray =
  elems :: "'a option list"
  props :: "jsnum \<Rightarrow> 'a option"

definition new_array :: "'a option list \<Rightarrow> 'a jsarray" where
  "new_array xs = \<lparr>elems = xs, props = (\<lambda>_. None)\<rparr>"

text \<open>\<^verbatim>\<open>a[k]\<close>: \<^verbatim>\<open>undefined\<close> (here \<open>None\<close>) beyond the length and for an unset property.\<close>

definition array_get :: "'a jsarray \<Rightarrow> jsnum \<Rightarrow> 'a option" where
  "array_get a k =
     (case k of
        Num i \<Rightarrow>
          if 0 \<le> i then (if nat i < length (elems a) then elems a ! nat i else None)
          else props a k
      | NaN \<Rightarrow> props a k)"

text \<open>\<^verbatim>\<open>a[k] = v\<close>: a write beyond the length extends the array, leaving holes.\<close>

definition array_set :: "'a jsarray \<Rightarrow> jsnum \<Rightarrow> 'a \<Rightarrow> 'a jsarray" where
  "array_set a k v =
     (case k of
        Num i \<Rightarrow>
          if 0 \<le> i then
            (if nat i < length (elems a) then a\<lparr>elems := (elems a)[nat i := Some v]\<rparr>
             else a\<lparr>elems := elems a @ replicate (nat i - length (elems a)) None @ [Some v]\<rparr>)
          else a\<lparr>props := (props a)(k := Some v)\<rparr>
      | NaN \<Rightarrow> a\<lparr>props := (props a)(k := Some v)\<rparr>)"

text \<open>
  The relative index of \<^verbatim>\<open>Array.prototype.slice\<close> and \<^verbatim>\<open>splice\<close>: \<^verbatim>\<open>NaN\<close> counts as
  0, a negative number counts from the end, and the result is clamped to \<open>[0, len]\<close>.
\<close>

definition rel_index :: "nat \<Rightarrow> jsnum \<Rightarrow> nat" where
  "rel_index len k =
     (case k of
        NaN \<Rightarrow> 0
      | Num i \<Rightarrow> if i < 0 then nat (max (int len + i) 0) else nat (min i (int len)))"

text \<open>\<^verbatim>\<open>xs.slice(start, end)\<close> and \<^verbatim>\<open>xs.slice(start)\<close>; both return a fresh array.\<close>

definition slice :: "'b list \<Rightarrow> jsnum \<Rightarrow> jsnum \<Rightarrow> 'b list" where
  "slice xs start finish =
     (let k = rel_index (length xs) start; final = rel_index (length xs) finish
      in take (final - k) (drop k xs))"

definition slice_from :: "'b list \<Rightarrow> jsnum \<Rightarrow> 'b list" where
  "slice_from xs start = drop (rel_index (length xs) start) xs"

text \<open>
  \<^verbatim>\<open>xs.splice(start, deleteCount)\<close>: the removed elements and what is left of \<open>xs\<close>.
  At most the elements from \<open>start\<close> to the end are removed, and none for a negative count.
\<close>

definition splice :: "'b list \<Rightarrow> int \<Rightarrow> int \<Rightarrow> 'b list \<times> 'b list" where
  "splice xs start deleteCount =
     (let k = rel_index (length xs) (Num start);
          d = min (nat (max deleteCount 0)) (length xs - k)
      in (take d (drop k xs), take k xs @ drop (k + d) xs))"

section \<open>The class RingBuffer\<close>

record 'a ring_buffer =
  buffer :: "'a jsarray"
  size :: int
  pos :: jsnum

datatype error = RangeError | TypeError

text \<open>
  What a caller passes as \<^verbatim>\<open>data\<close>: an array, or something else, which
  \<^verbatim>\<open>Array.isArray\<close> rejects.
\<close>

datatype 'a jsdata = Array "'a option list" | NotArray

text \<open>
  The object a successful constructor call returns: the field initialisers give an empty
  array and position 0, the constructor body stores the size.
\<close>

abbreviation fresh :: "int \<Rightarrow> 'a ring_buffer" where
  "fresh sz \<equiv> \<lparr>buffer = new_array [], size = sz, pos = Num 0\<rparr>"

text \<open>The constructor; it throws on a negative size.\<close>

definition RingBuffer :: "int \<Rightarrow> error + 'a ring_buffer" where
  "RingBuffer sz = (if sz < 0 then Inl RangeError else Inr (fresh sz))"

text \<open>
  Every method takes the object and returns its result together with the object after the
  call. A method that can throw returns the error, with the object as the throw left it.
\<close>

definition getSize :: "'a ring_buffer \<Rightarrow> int \<times> 'a ring_buffer" where
  "getSize rb = (size rb, rb)"

definition getPos :: "'a ring_buffer \<Rightarrow> jsnum \<times> 'a ring_buffer" where
  "getPos rb = (pos rb, rb)"

definition getBufferLength :: "'a ring_buffer \<Rightarrow> int \<times> 'a ring_buffer" where
  "getBufferLength rb = (int (length (elems (buffer rb))), rb)"

text \<open>The body of the \<^verbatim>\<open>forEach\<close> callback of \<^verbatim>\<open>add\<close>, and \<^verbatim>\<open>add\<close> itself.\<close>

definition add_item :: "'a \<Rightarrow> 'a ring_buffer \<Rightarrow> 'a ring_buffer" where
  "add_item item rb =
     rb\<lparr>buffer := array_set (buffer rb) (pos rb) item,
        pos := js_rem (js_add (pos rb) (Num 1)) (Num (size rb))\<rparr>"

definition add :: "'a list \<Rightarrow> 'a ring_buffer \<Rightarrow> 'a ring_buffer" where
  "add items rb = foldl (\<lambda>r item. add_item item r) rb items"

definition get :: "int \<Rightarrow> 'a ring_buffer \<Rightarrow> 'a option \<times> 'a ring_buffer" where
  "get index rb =
     (let len = int (length (elems (buffer rb)));
          index = (if index < 0 then index + len else index)
      in if index < 0 \<or> index > len then (None, rb)
         else if len < size rb then (array_get (buffer rb) (Num index), rb)
         else (array_get (buffer rb) (js_rem (js_add (pos rb) (Num index)) (Num (size rb))), rb))"

definition getFirst :: "'a ring_buffer \<Rightarrow> 'a option \<times> 'a ring_buffer" where
  "getFirst rb = get 0 rb"

definition getLast :: "'a ring_buffer \<Rightarrow> 'a option \<times> 'a ring_buffer" where
  "getLast rb = get (- 1) rb"

definition toArray :: "'a ring_buffer \<Rightarrow> 'a option list \<times> 'a ring_buffer" where
  "toArray rb =
     (slice_from (elems (buffer rb)) (pos rb) @ slice (elems (buffer rb)) (Num 0) (pos rb), rb)"

definition firstN :: "int \<Rightarrow> 'a ring_buffer \<Rightarrow> 'a option list \<times> 'a ring_buffer" where
  "firstN n rb =
     (let firstPart = slice (elems (buffer rb)) (pos rb) (js_add (pos rb) (Num n));
          remaining = js_sub (js_add (pos rb) (Num n)) (Num (size rb))
      in if js_le remaining (Num 0) then (firstPart, rb)
         else (firstPart @ slice (elems (buffer rb)) (Num 0) remaining, rb))"

definition lastN :: "int \<Rightarrow> 'a ring_buffer \<Rightarrow> 'a option list \<times> 'a ring_buffer" where
  "lastN n rb =
     (let firstPart =
            slice (elems (buffer rb)) (js_max (Num 0) (js_sub (pos rb) (Num n))) (pos rb);
          remaining = js_sub (Num n) (pos rb)
      in if js_le remaining (Num 0) then (firstPart, rb)
         else (slice (elems (buffer rb)) (js_sub (Num (size rb)) remaining) (Num (size rb))
                 @ firstPart, rb))"

definition clear :: "'a ring_buffer \<Rightarrow> 'a ring_buffer" where
  "clear rb = rb\<lparr>buffer := new_array [], pos := Num 0\<rparr>"

text \<open>
  \<^verbatim>\<open>fromArray\<close> calls \<^verbatim>\<open>resize\<close> when its flag is set, and \<^verbatim>\<open>resize\<close> calls
  \<^verbatim>\<open>fromArray\<close> with the flag unset. \<^verbatim>\<open>resize\<close> assigns \<^verbatim>\<open>this.size\<close> last, so the
  \<^verbatim>\<open>fromArray\<close> it calls still sees the old size.
\<close>

function fromArray :: "'a jsdata \<Rightarrow> bool \<Rightarrow> 'a ring_buffer \<Rightarrow> error option \<times> 'a ring_buffer"
  and resize :: "int \<Rightarrow> 'a ring_buffer \<Rightarrow> error option \<times> 'a ring_buffer" where
  "fromArray data rs rb =
     (case data of
        NotArray \<Rightarrow> (Some TypeError, rb)
      | Array xs \<Rightarrow>
          (case (if rs then resize (int (length xs)) rb else (None, rb)) of
             (Some e, rb1) \<Rightarrow> (Some e, rb1)
           | (None, rb1) \<Rightarrow>
               if size rb1 = 0 then (None, rb1)
               else
                 (let b = slice_from xs (Num (- size rb1))
                  in (None, rb1\<lparr>buffer := new_array b,
                                pos := js_rem (Num (int (length b))) (Num (size rb1))\<rparr>))))"
| "resize newSize rb =
     (if newSize < 0 then (Some RangeError, rb)
      else if newSize = 0 then (None, (clear rb)\<lparr>size := newSize\<rparr>)
      else if newSize \<noteq> size rb then
        (let currentBuffer = fst (toArray rb)
         in case fromArray (Array (slice_from currentBuffer (Num (- newSize)))) False
                   (snd (toArray rb)) of
              (Some e, rb1) \<Rightarrow> (Some e, rb1)
            | (None, rb1) \<Rightarrow>
                (None, rb1\<lparr>pos := js_rem (Num (int (length (elems (buffer rb1))))) (Num newSize),
                           size := newSize\<rparr>))
      else (None, rb\<lparr>size := newSize\<rparr>))"
  by pat_completeness auto
termination
  by (relation "measure (\<lambda>c. case c of
                   Inl (data, rs, rb) \<Rightarrow> if rs then 2 else 0
                 | Inr (newSize, rb) \<Rightarrow> 1)") auto

declare fromArray.simps [simp del] resize.simps [simp del]

text \<open>
  \<^verbatim>\<open>remove\<close> splices a copy of the content and imports what is left; an error of
  \<^verbatim>\<open>fromArray\<close> would pass through it.
\<close>

definition remove :: "int \<Rightarrow> int \<Rightarrow> 'a ring_buffer \<Rightarrow> (error + 'a option list) \<times> 'a ring_buffer" where
  "remove index count rb =
     (let len = int (length (elems (buffer rb)));
          index = (if index < 0 then index + len else index)
      in if index < 0 \<or> index > len then (Inr [], rb)
         else
           (let arr = fst (toArray rb);
                (removedItems, arr') = splice arr index count
            in case fromArray (Array arr') False (snd (toArray rb)) of
                 (Some e, rb1) \<Rightarrow> (Inl e, rb1)
               | (None, rb1) \<Rightarrow> (Inr removedItems, rb1)))"

text \<open>\<^verbatim>\<open>xs[0]\<close> of a returned array: \<^verbatim>\<open>undefined\<close> when it is empty.\<close>

definition first_elem :: "'a option list \<Rightarrow> 'a option" where
  "first_elem xs = (case xs of [] \<Rightarrow> None | x # _ \<Rightarrow> x)"

definition removeFirst :: "'a ring_buffer \<Rightarrow> (error + 'a option) \<times> 'a ring_buffer" where
  "removeFirst rb =
     (case remove 0 1 rb of
        (Inl e, rb1) \<Rightarrow> (Inl e, rb1)
      | (Inr xs, rb1) \<Rightarrow> (Inr (first_elem xs), rb1))"

definition removeLast :: "'a ring_buffer \<Rightarrow> (error + 'a option) \<times> 'a ring_buffer" where
  "removeLast rb =
     (case remove (- 1) 1 rb of
        (Inl e, rb1) \<Rightarrow> (Inl e, rb1)
      | (Inr xs, rb1) \<Rightarrow> (Inr (first_elem xs), rb1))"

definition isFull :: "'a ring_buffer \<Rightarrow> bool \<times> 'a ring_buffer" where
  "isFull rb = (int (length (elems (buffer rb))) = size rb, rb)"

definition isEmpty :: "'a ring_buffer \<Rightarrow> bool \<times> 'a ring_buffer" where
  "isEmpty rb = (length (elems (buffer rb)) = 0, rb)"

text \<open>The static method \<^verbatim>\<open>RingBuffer.fromArray(data, size = 0)\<close>.\<close>

definition RingBuffer_fromArray :: "'a jsdata \<Rightarrow> int \<Rightarrow> error + 'a ring_buffer" where
  "RingBuffer_fromArray data sz =
     (case RingBuffer sz of
        Inl e \<Rightarrow> Inl e
      | Inr ringBuffer \<Rightarrow>
          (case fromArray data (sz = 0) ringBuffer of
             (Some e, _) \<Rightarrow> Inl e
           | (None, rb1) \<Rightarrow> Inr rb1))"

section \<open>Consistent and reachable states\<close>

text \<open>
  The states the class keeps itself in. For a positive size the storage is no longer than
  the size and the cursor is the stored length while the buffer fills up, and some slot
  once it is full. For size 0 the buffer is either as constructed, or it is in the state
  that \<^verbatim>\<open>add\<close> leaves behind: one stored element and the cursor \<^verbatim>\<open>NaN\<close>.
\<close>

definition rb_inv :: "'a ring_buffer \<Rightarrow> bool" where
  "rb_inv rb =
     (case pos rb of
        NaN \<Rightarrow> size rb = 0 \<and> length (elems (buffer rb)) = 1
      | Num p \<Rightarrow>
          if size rb = 0 then p = 0 \<and> elems (buffer rb) = []
          else 0 < size rb \<and> int (length (elems (buffer rb))) \<le> size rb \<and>
               (if int (length (elems (buffer rb))) < size rb
                then p = int (length (elems (buffer rb)))
                else 0 \<le> p \<and> p < size rb))"

text \<open>
  The states a caller can produce: by a constructor, and from there by the methods that
  assign to a field. The read accessors return the object as it is.
\<close>

inductive reachable :: "'a ring_buffer \<Rightarrow> bool" where
  constructed: "RingBuffer sz = Inr rb \<Longrightarrow> reachable rb"
| constructed_fromArray: "RingBuffer_fromArray data sz = Inr rb \<Longrightarrow> reachable rb"
| after_add: "reachable rb \<Longrightarrow> reachable (add items rb)"
| after_remove: "reachable rb \<Longrightarrow> reachable (snd (remove index count rb))"
| after_removeFirst: "reachable rb \<Longrightarrow> reachable (snd (removeFirst rb))"
| after_removeLast: "reachable rb \<Longrightarrow> reachable (snd (removeLast rb))"
| after_fromArray: "reachable rb \<Longrightarrow> reachable (snd (fromArray data rs rb))"
| after_clear: "reachable rb \<Longrightarrow> reachable (clear rb)"
| after_resize: "reachable rb \<Longrightarrow> reachable (snd (resize newSize rb))"

section \<open>Evaluation lemmas\<close>

lemmas js_defs = array_get_def array_set_def rel_index_def slice_def slice_from_def
  splice_def new_array_def

lemmas rb_defs = add_def add_item_def get_def toArray_def firstN_def lastN_def
  getBufferLength_def isEmpty_def isFull_def getSize_def getPos_def clear_def
  remove_def RingBuffer_def fromArray.simps resize.simps

section \<open>Slices and the content of a buffer\<close>

lemma slice_from_Num: "0 \<le> i \<Longrightarrow> slice_from xs (Num i) = drop (nat i) xs"
  by (simp add: slice_from_def rel_index_def min_def)

lemma slice_from_NaN: "slice_from xs NaN = xs"
  by (simp add: slice_from_def rel_index_def)

lemma slice_from_neg: "0 < c \<Longrightarrow> slice_from xs (Num (- c)) = drop (length xs - nat c) xs"
  by (simp add: slice_from_def rel_index_def max_def nat_diff_distrib' nat_le_iff)

lemma slice_zero_Num: "0 \<le> i \<Longrightarrow> slice xs (Num 0) (Num i) = take (nat i) xs"
  by (simp add: slice_def rel_index_def min_def)

lemma slice_zero_NaN: "slice xs (Num 0) NaN = []"
  by (simp add: slice_def rel_index_def)

lemma rb_inv_fresh: "0 \<le> c \<Longrightarrow> rb_inv (fresh c)"
  by (simp add: rb_inv_def new_array_def)

lemma rb_inv_add_item: "rb_inv rb \<Longrightarrow> rb_inv (add_item x rb)"
  by (cases "pos rb") (auto simp: rb_inv_def add_item_def array_set_def split: if_splits)

lemma size_add_item: "size (add_item x rb) = size rb"
  by (simp add: add_item_def)

lemma rb_inv_add: "rb_inv rb \<Longrightarrow> rb_inv (add items rb)"
  unfolding add_def by (induction items arbitrary: rb) (simp_all add: rb_inv_add_item)

lemma size_add: "size (add items rb) = size rb"
  unfolding add_def by (induction items arbitrary: rb) (simp_all add: size_add_item)

lemma rb_inv_add_calls: "rb_inv rb \<Longrightarrow> rb_inv (foldl (\<lambda>r items. add items r) rb calls)"
  by (induction calls arbitrary: rb) (simp_all add: rb_inv_add)

lemma size_add_calls: "size (foldl (\<lambda>r items. add items r) rb calls) = size rb"
  by (induction calls arbitrary: rb) (simp_all add: size_add)

lemma add_calls_concat: "foldl (\<lambda>r items. add items r) rb calls = add (concat calls) rb"
  unfolding add_def by (induction calls arbitrary: rb) simp_all

lemma rb_inv_length_le:
  "rb_inv rb \<Longrightarrow> 0 < size rb \<Longrightarrow> int (length (elems (buffer rb))) \<le> size rb"
  by (cases "pos rb") (auto simp: rb_inv_def split: if_splits)

lemma full_add_item:
  "rb_inv rb \<Longrightarrow> 0 < size rb \<Longrightarrow> int (length (elems (buffer rb))) = size rb
   \<Longrightarrow> int (length (elems (buffer (add_item x rb)))) = size rb"
  by (cases "pos rb") (auto simp: rb_inv_def add_item_def array_set_def split: if_splits)

lemma full_add:
  "rb_inv rb \<Longrightarrow> 0 < size rb \<Longrightarrow> int (length (elems (buffer rb))) = size rb
   \<Longrightarrow> int (length (elems (buffer (add items rb)))) = size rb"
  unfolding add_def
proof (induction items arbitrary: rb)
  case Nil
  then show ?case by simp
next
  case (Cons x xs)
  have "int (length (elems (buffer (foldl (\<lambda>r item. add_item item r) (add_item x rb) xs))))
        = size (add_item x rb)"
    by (rule Cons.IH) (simp_all add: rb_inv_add_item size_add_item full_add_item Cons.prems)
  then show ?case by (simp add: size_add_item)
qed

lemma drop_Suc_append_tl: "xs \<noteq> [] \<Longrightarrow> drop (Suc n) (xs @ ys) = drop n (tl xs @ ys)"
  by (cases xs) simp_all

lemma toArray_Num:
  "pos rb = Num p \<Longrightarrow> 0 \<le> p \<Longrightarrow>
   fst (toArray rb) = drop (nat p) (elems (buffer rb)) @ take (nat p) (elems (buffer rb))"
  by (simp add: toArray_def slice_from_Num slice_zero_Num)

lemma toArray_NaN: "pos rb = NaN \<Longrightarrow> fst (toArray rb) = elems (buffer rb)"
  by (simp add: toArray_def slice_from_NaN slice_zero_NaN)

lemma length_toArray_inv: "rb_inv rb \<Longrightarrow> length (fst (toArray rb)) = length (elems (buffer rb))"
  by (cases "pos rb") (auto simp: rb_inv_def toArray_Num toArray_NaN split: if_splits)

lemma toArray_add_item_filling:
  assumes "pos rb = Num (int (length (elems (buffer rb))))"
    and "int (length (elems (buffer rb))) < size rb"
  shows "fst (toArray (add_item x rb)) = fst (toArray rb) @ [Some x]"
proof -
  let ?n = "length (elems (buffer rb))"
  have e: "elems (buffer (add_item x rb)) = elems (buffer rb) @ [Some x]"
    using assms by (simp add: add_item_def array_set_def)
  show ?thesis
  proof (cases "int ?n + 1 = size rb")
    case True
    then have "pos (add_item x rb) = Num 0"
      using assms by (simp add: add_item_def)
    then show ?thesis
      using e assms(1) by (simp add: toArray_Num)
  next
    case False
    then have "pos (add_item x rb) = Num (int ?n + 1)"
      using assms by (simp add: add_item_def)
    then show ?thesis
      using e assms(1) by (simp add: toArray_Num nat_add_distrib)
  qed
qed

lemma toArray_add_item_full:
  assumes "pos rb = Num (int p)" and "p < length (elems (buffer rb))"
    and "int (length (elems (buffer rb))) = size rb"
  shows "fst (toArray (add_item x rb)) = tl (fst (toArray rb)) @ [Some x]"
proof -
  let ?es = "elems (buffer rb)"
  have e: "elems (buffer (add_item x rb)) = ?es[p := Some x]"
    using assms by (simp add: add_item_def array_set_def)
  have old: "fst (toArray rb) = drop p ?es @ take p ?es"
    using assms(1) by (simp add: toArray_Num)
  have dp: "drop p ?es = ?es ! p # drop (Suc p) ?es"
    using assms(2) by (simp add: Cons_nth_drop_Suc)
  show ?thesis
  proof (cases "Suc p = length ?es")
    case True
    then have "int p + 1 = size rb"
      using assms(3) by linarith
    then have "pos (add_item x rb) = Num 0"
      using assms(1) by (simp add: add_item_def)
    then have "fst (toArray (add_item x rb)) = ?es[p := Some x]"
      using e by (simp add: toArray_Num)
    also have "\<dots> = take p ?es @ [Some x]"
      using True assms(2) by (simp add: upd_conv_take_nth_drop)
    finally show ?thesis
      using old dp True by simp
  next
    case False
    then have lt: "Suc p < length ?es" using assms(2) by simp
    have pos': "pos (add_item x rb) = Num (int (Suc p))"
      using assms lt by (simp add: add_item_def)
    have "fst (toArray (add_item x rb))
          = drop (nat (int (Suc p))) (elems (buffer (add_item x rb)))
            @ take (nat (int (Suc p))) (elems (buffer (add_item x rb)))"
      by (rule toArray_Num [OF pos']) simp
    then have "fst (toArray (add_item x rb))
               = drop (Suc p) (?es[p := Some x]) @ take (Suc p) (?es[p := Some x])"
      unfolding nat_int e .
    also have "\<dots> = drop (Suc p) ?es @ take p ?es @ [Some x]"
      using assms(2) by (simp add: take_Suc_conv_app_nth)
    finally show ?thesis
      using old dp by simp
  qed
qed

lemma toArray_add_item:
  assumes "rb_inv rb" and "0 < size rb"
  shows "fst (toArray (add_item x rb))
         = drop (Suc (length (fst (toArray rb))) - nat (size rb)) (fst (toArray rb) @ [Some x])"
proof (cases "int (length (elems (buffer rb))) < size rb")
  case True
  then have "pos rb = Num (int (length (elems (buffer rb))))"
    using assms by (cases "pos rb") (auto simp: rb_inv_def)
  then show ?thesis
    using True toArray_add_item_filling [of rb x] assms length_toArray_inv [OF assms(1)]
    by simp
next
  case False
  then have full: "int (length (elems (buffer rb))) = size rb"
    using rb_inv_length_le [OF assms] by simp
  obtain p where p: "pos rb = Num (int p)" "p < length (elems (buffer rb))"
  proof (cases "pos rb")
    case (Num q)
    then have "0 \<le> q \<and> q < size rb"
      using assms False by (auto simp: rb_inv_def)
    then have "pos rb = Num (int (nat q))" and "nat q < length (elems (buffer rb))"
      using Num full by (simp, linarith)
    then show ?thesis by (rule that)
  next
    case NaN
    then show ?thesis using assms by (simp add: rb_inv_def)
  qed
  have ne: "fst (toArray rb) \<noteq> []"
    using length_toArray_inv [OF assms(1)] p(2) by auto
  have k1: "Suc (length (fst (toArray rb))) - nat (size rb) = Suc 0"
    using length_toArray_inv [OF assms(1)] full assms(2) by simp
  have d1: "drop (Suc 0) (fst (toArray rb) @ [Some x]) = tl (fst (toArray rb)) @ [Some x]"
    using drop_Suc_append_tl [OF ne, of 0 "[Some x]"] by simp
  show ?thesis
    by (simp only: k1 d1 toArray_add_item_full [OF p full])
qed

lemma toArray_add:
  assumes "rb_inv rb" and "0 < size rb"
  shows "fst (toArray (add items rb))
         = drop (length (fst (toArray rb)) + length items - nat (size rb))
             (fst (toArray rb) @ map Some items)"
  using assms
proof (induction items arbitrary: rb)
  case Nil
  have "length (fst (toArray rb)) \<le> nat (size rb)"
    using rb_inv_length_le [OF Nil] length_toArray_inv [OF Nil(1)] by simp
  then show ?case by (simp add: add_def)
next
  case (Cons x xs)
  let ?L = "fst (toArray rb)" and ?c = "nat (size rb)"
  have len: "length ?L \<le> ?c"
    using rb_inv_length_le [OF Cons.prems] length_toArray_inv [OF Cons.prems(1)] by simp
  have step: "fst (toArray (add_item x rb)) = drop (Suc (length ?L) - ?c) (?L @ [Some x])"
    by (rule toArray_add_item [OF Cons.prems])
  have "fst (toArray (add (x # xs) rb)) = fst (toArray (add xs (add_item x rb)))"
    by (simp add: add_def)
  also have "\<dots> = drop (length (fst (toArray (add_item x rb))) + length xs - ?c)
                     (fst (toArray (add_item x rb)) @ map Some xs)"
    using Cons.IH [of "add_item x rb"] Cons.prems
    by (simp add: rb_inv_add_item size_add_item)
  also have "\<dots> = drop (length ?L + length (x # xs) - ?c) (?L @ map Some (x # xs))"
  proof (cases "length ?L < ?c")
    case True
    then show ?thesis by (simp add: step)
  next
    case False
    then have eq: "length ?L = ?c" using len by simp
    then have ne: "?L \<noteq> []" using Cons.prems(2) by auto
    have k1: "Suc (length ?L) - ?c = Suc 0" using eq by simp
    have d1: "drop (Suc 0) (?L @ [Some x]) = tl ?L @ [Some x]"
      using drop_Suc_append_tl [OF ne, of 0 "[Some x]"] by simp
    have s1: "fst (toArray (add_item x rb)) = tl ?L @ [Some x]"
      by (simp only: step k1 d1)
    have "0 < length ?L" using ne by simp
    then have a1: "length (tl ?L @ [Some x]) + length xs - ?c = length xs"
      using eq by simp
    have a2: "length ?L + length (x # xs) - ?c = Suc (length xs)"
      using eq by simp
    show ?thesis
      by (simp only: s1 a1 a2 drop_Suc_append_tl [OF ne] list.map append_assoc append.simps)
  qed
  finally show ?case .
qed

section \<open>Import, resize and removal keep the invariant\<close>

lemma fromArray_False:
  "fromArray (Array xs) False rb =
     (if size rb = 0 then (None, rb)
      else (None, rb\<lparr>buffer := new_array (slice_from xs (Num (- size rb))),
                     pos := js_rem (Num (int (length (slice_from xs (Num (- size rb))))))
                              (Num (size rb))\<rparr>))"
  by (simp add: fromArray.simps Let_def)

lemma fromArray_NotArray: "fromArray NotArray rs rb = (Some TypeError, rb)"
  by (simp add: fromArray.simps)

lemma rb_inv_pos_size: "rb_inv rb \<Longrightarrow> size rb \<noteq> 0 \<Longrightarrow> 0 < size rb"
  by (cases "pos rb") (auto simp: rb_inv_def split: if_splits)

text \<open>The state that the assignments of fromArray produce, for a positive size.\<close>

lemma rb_inv_import:
  assumes "0 < size rb" and "int (length b) \<le> size rb"
  shows "rb_inv (rb\<lparr>buffer := new_array b, pos := js_rem (Num (int (length b))) (Num (size rb))\<rparr>)"
  using assms by (auto simp: rb_inv_def new_array_def)

lemma length_slice_from_neg: "0 < c \<Longrightarrow> int (length (slice_from xs (Num (- c)))) \<le> c"
  by (simp add: slice_from_neg)

lemma toArray_linear:
  assumes "pos rb = js_rem (Num (int (length (elems (buffer rb))))) (Num n)"
    and "0 < n" and "int (length (elems (buffer rb))) \<le> n"
  shows "fst (toArray rb) = elems (buffer rb)"
proof (cases "int (length (elems (buffer rb))) = n")
  case True
  then have "pos rb = Num 0" using assms by simp
  then show ?thesis by (simp add: toArray_Num)
next
  case False
  then have "pos rb = Num (int (length (elems (buffer rb))))" using assms by simp
  then show ?thesis by (simp add: toArray_Num)
qed

text \<open>
  With a positive size, importing a sequence that fits and exporting it again gives the
  sequence back, whatever the buffer held before.
\<close>

lemma fromArray_toArray_positive:
  assumes "0 < size rb" and "int (length S) \<le> size rb"
  shows "fst (fromArray (Array S) False rb) = None
         \<and> size (snd (fromArray (Array S) False rb)) = size rb
         \<and> fst (toArray (snd (fromArray (Array S) False rb))) = S"
proof -
  have b: "slice_from S (Num (- size rb)) = S"
    using assms by (simp add: slice_from_neg)
  let ?rb' = "rb\<lparr>buffer := new_array S, pos := js_rem (Num (int (length S))) (Num (size rb))\<rparr>"
  have "fst (toArray ?rb') = elems (buffer ?rb')"
    by (rule toArray_linear [where n = "size rb"]) (simp_all add: new_array_def assms)
  then show ?thesis
    using assms(1) by (simp add: fromArray_False b new_array_def)
qed

lemma rb_inv_clear: "rb_inv rb \<Longrightarrow> rb_inv (clear rb)"
  by (cases "pos rb") (auto simp: rb_inv_def clear_def new_array_def split: if_splits)

lemma rb_inv_fromArray_False: "rb_inv rb \<Longrightarrow> rb_inv (snd (fromArray data False rb))"
proof (cases data)
  case (Array xs)
  assume inv: "rb_inv rb"
  show ?thesis
  proof (cases "size rb = 0")
    case True
    then show ?thesis using inv Array by (simp add: fromArray_False)
  next
    case False
    then have pos: "0 < size rb" using inv by (simp add: rb_inv_pos_size)
    have "rb_inv (rb\<lparr>buffer := new_array (slice_from xs (Num (- size rb))),
                    pos := js_rem (Num (int (length (slice_from xs (Num (- size rb))))))
                             (Num (size rb))\<rparr>)"
      by (rule rb_inv_import [OF pos length_slice_from_neg [OF pos]])
    then show ?thesis
      using False by (simp only: Array fromArray_False if_False snd_conv)
  qed
next
  case NotArray
  assume "rb_inv rb"
  then show ?thesis using NotArray by (simp add: fromArray_NotArray)
qed

text \<open>What resize does for a positive new size that differs from the current one.\<close>

lemma resize_changes:
  assumes "rb_inv rb" and "0 < n" and "n \<noteq> size rb"
  shows "fst (resize n rb) = None"
    and "size (snd (resize n rb)) = n"
    and "elems (buffer (snd (resize n rb)))
         = drop (length (fst (toArray rb)) - nat n) (fst (toArray rb))"
    and "pos (snd (resize n rb))
         = js_rem (Num (int (length (elems (buffer (snd (resize n rb))))))) (Num n)"
proof -
  let ?L = "fst (toArray rb)"
  let ?D = "slice_from ?L (Num (- n))"
  have D: "?D = drop (length ?L - nat n) ?L"
    using assms(2) by (simp add: slice_from_neg)
  have tA: "snd (toArray rb) = rb" by (simp add: toArray_def)
  have r: "resize n rb =
             (case fromArray (Array ?D) False rb of
                (Some e, rb1) \<Rightarrow> (Some e, rb1)
              | (None, rb1) \<Rightarrow>
                  (None, rb1\<lparr>pos := js_rem (Num (int (length (elems (buffer rb1))))) (Num n),
                             size := n\<rparr>))"
    using assms(2,3) by (simp add: resize.simps tA Let_def)
  show "fst (resize n rb) = None" and "size (snd (resize n rb)) = n"
    and "pos (snd (resize n rb))
         = js_rem (Num (int (length (elems (buffer (snd (resize n rb))))))) (Num n)"
    by (simp_all add: r fromArray_False)
  show "elems (buffer (snd (resize n rb))) = drop (length ?L - nat n) ?L"
  proof (cases "size rb = 0")
    case True
    have "length (elems (buffer rb)) \<le> 1" and "?L = elems (buffer rb)"
      using assms(1) True
      by (cases "pos rb"; simp add: rb_inv_def toArray_Num toArray_NaN)+
    then show ?thesis
      using True assms(2) by (simp add: r fromArray_False)
  next
    case False
    then have pos: "0 < size rb" using assms(1) by (simp add: rb_inv_pos_size)
    have "length ?L \<le> nat (size rb)"
      using rb_inv_length_le [OF assms(1) pos] length_toArray_inv [OF assms(1)] by simp
    then have "length ?D \<le> nat (size rb)" by (simp add: D)
    then have "slice_from ?D (Num (- size rb)) = ?D"
      using pos by (simp add: slice_from_neg [of "size rb"])
    then show ?thesis
      using False by (simp add: r fromArray_False new_array_def D)
  qed
qed

lemma rb_inv_linear:
  assumes "0 < size rb" and "int (length (elems (buffer rb))) \<le> size rb"
    and "pos rb = js_rem (Num (int (length (elems (buffer rb))))) (Num (size rb))"
  shows "rb_inv rb"
  using assms by (auto simp: rb_inv_def)

lemma rb_inv_resize: 
  assumes "rb_inv rb"
  shows "rb_inv (snd (resize n rb))"
proof -
  consider "n < 0" | "n = 0" | "0 < n" "n = size rb" | "0 < n" "n \<noteq> size rb"
    by linarith
  then show ?thesis
  proof cases
    case 1
    then show ?thesis using assms by (simp add: resize.simps)
  next
    case 2
    then show ?thesis by (simp add: resize.simps clear_def new_array_def rb_inv_def)
  next
    case 3
    then show ?thesis using assms by (simp add: resize.simps)
  next
    case 4
    note ch = resize_changes [OF assms 4]
    show ?thesis
    proof (rule rb_inv_linear)
      show "0 < size (snd (resize n rb))" using ch(2) 4(1) by simp
      show "int (length (elems (buffer (snd (resize n rb))))) \<le> size (snd (resize n rb))"
        using 4(1) by (simp add: ch(2,3))
      show "pos (snd (resize n rb))
            = js_rem (Num (int (length (elems (buffer (snd (resize n rb)))))))
                (Num (size (snd (resize n rb))))"
        using ch(4) by (simp add: ch(2))
    qed
  qed
qed

lemma rb_inv_fromArray:
  assumes "rb_inv rb"
  shows "rb_inv (snd (fromArray data rs rb))"
proof (cases rs)
  case False
  then show ?thesis using assms by (simp add: rb_inv_fromArray_False)
next
  case True
  show ?thesis
  proof (cases data)
    case NotArray
    then show ?thesis using assms by (simp add: fromArray_NotArray)
  next
    case (Array xs)
    obtain e rb1 where r: "resize (int (length xs)) rb = (e, rb1)"
      by (cases "resize (int (length xs)) rb")
    have inv1: "rb_inv rb1"
      using rb_inv_resize [OF assms, of "int (length xs)"] r by simp
    show ?thesis
    proof (cases "e = None \<and> size rb1 \<noteq> 0")
      case False
      then show ?thesis
        using inv1 by (cases e) (auto simp: Array True fromArray.simps r)
    next
      case both: True
      then have pos: "0 < size rb1" using inv1 by (simp add: rb_inv_pos_size)
      have "rb_inv (rb1\<lparr>buffer := new_array (slice_from xs (Num (- size rb1))),
                    pos := js_rem (Num (int (length (slice_from xs (Num (- size rb1))))))
                             (Num (size rb1))\<rparr>)"
        by (rule rb_inv_import [OF pos length_slice_from_neg [OF pos]])
      then show ?thesis
        using both by (simp add: Array True fromArray.simps r Let_def)
    qed
  qed
qed

lemma snd_toArray: "snd (toArray rb) = rb"
  by (simp add: toArray_def)

lemma snd_remove:
  "snd (remove index count rb) = rb
   \<or> (\<exists>xs. snd (remove index count rb) = snd (fromArray (Array xs) False rb))"
proof -
  let ?len = "int (length (elems (buffer rb)))"
  let ?i = "if index < 0 then index + ?len else index"
  show ?thesis
  proof (cases "?i < 0 \<or> ?i > ?len")
    case True
    then have "snd (remove index count rb) = rb"
      by (simp add: remove_def Let_def)
    then show ?thesis by simp
  next
    case False
    obtain r a where sp: "splice (fst (toArray rb)) ?i count = (r, a)"
      by (cases "splice (fst (toArray rb)) ?i count")
    obtain e rb1 where f: "fromArray (Array a) False rb = (e, rb1)"
      by (cases "fromArray (Array a) False rb")
    have "remove index count rb
          = (case fromArray (Array a) False rb of
               (Some e, rb1) \<Rightarrow> (Inl e, rb1)
             | (None, rb1) \<Rightarrow> (Inr r, rb1))"
      using False sp unfolding remove_def Let_def snd_toArray by simp
    then have "snd (remove index count rb) = snd (fromArray (Array a) False rb)"
      using f by (cases e) simp_all
    then show ?thesis by blast
  qed
qed

lemma rb_inv_remove: "rb_inv rb \<Longrightarrow> rb_inv (snd (remove index count rb))"
  using snd_remove [of index count rb] by (auto simp: rb_inv_fromArray)

lemma snd_removeFirst: "snd (removeFirst rb) = snd (remove 0 1 rb)"
  by (simp add: removeFirst_def split: prod.splits sum.splits)

lemma snd_removeLast: "snd (removeLast rb) = snd (remove (- 1) 1 rb)"
  by (simp add: removeLast_def split: prod.splits sum.splits)

lemma reachable_inv: "reachable rb \<Longrightarrow> rb_inv rb"
proof (induction rule: reachable.induct)
  case (constructed sz rb)
  then show ?case by (auto simp: RingBuffer_def rb_inv_fresh split: if_splits)
next
  case (constructed_fromArray data sz rb)
  then have "0 \<le> sz" and "rb = snd (fromArray data (sz = 0) (fresh sz))"
    by (auto simp: RingBuffer_fromArray_def RingBuffer_def split: if_splits prod.splits option.splits)
  then show ?case by (simp add: rb_inv_fromArray rb_inv_fresh)
qed (simp_all add: rb_inv_add rb_inv_remove snd_removeFirst snd_removeLast rb_inv_fromArray
      rb_inv_clear rb_inv_resize)

section \<open>Indexed reads\<close>

text \<open>
  Claim C1: \<^verbatim>\<open>get(index)\<close> remaps a negative index by adding the stored length and
  returns "absent" for every remapped index outside \<open>[0, storedLength)\<close>, in particular
  for \<^verbatim>\<open>get(storedLength)\<close>, without changing the state.

  The guard of \<^verbatim>\<open>get\<close> is \<^verbatim>\<open>index > this.buffer.length\<close>, so the index equal to
  the stored length passes it. On the full buffer of capacity 1 that holds 7 the call
  \<^verbatim>\<open>get(1)\<close> reads slot \<open>(0 + 1) % 1 = 0\<close> and returns 7, the oldest element.
\<close>

theorem C1_get_at_length_full:
  "RingBuffer 1 = Inr (fresh 1)
   \<and> fst (getBufferLength (add [7::nat] (fresh 1))) = 1
   \<and> fst (isFull (add [7::nat] (fresh 1)))
   \<and> fst (get 1 (add [7::nat] (fresh 1))) = Some 7"
  by (simp add: rb_defs js_defs)

section \<open>Capacity zero\<close>

text \<open>
  Claim C2: on a buffer constructed with capacity 0 every sequence of public operations
  keeps the storage empty and the cursor 0; \<^verbatim>\<open>add\<close> retains nothing, the buffer stays
  empty, and no remainder by zero is computed.

  \<^verbatim>\<open>add\<close> has no guard for size 0 (\<^verbatim>\<open>fromArray\<close> has one). The first item is written
  to slot 0, so the storage has length 1, and the cursor becomes \<open>(0 + 1) % 0\<close>, which is
  \<^verbatim>\<open>NaN\<close>.
\<close>

theorem C2_add_zero_capacity:
  "RingBuffer 0 = Inr (fresh 0)
   \<and> elems (buffer (add [1::nat] (fresh 0))) = [Some 1]
   \<and> pos (add [1::nat] (fresh 0)) = NaN
   \<and> js_rem (js_add (pos (fresh 0)) (Num 1)) (Num (size (fresh 0))) = NaN
   \<and> fst (isEmpty (add [1::nat] (fresh 0))) = False
   \<and> fst (getBufferLength (add [1::nat] (fresh 0))) = 1
   \<and> fst (toArray (add [1::nat] (fresh 0))) = [Some 1]"
  by (simp add: rb_defs js_defs)

section \<open>The first and the last n elements\<close>

text \<open>
  Claim C3: in every reachable state and for every \<open>n\<close> from 0 to the stored length plus
  5, \<^verbatim>\<open>firstN(n)\<close> is \<^verbatim>\<open>toArray().slice(0, n)\<close> and \<^verbatim>\<open>lastN(n)\<close> is the last \<open>n\<close>
  elements of \<^verbatim>\<open>toArray()\<close>, also on a buffer that is not full.

  On the buffer of capacity 3 that holds only 1, \<^verbatim>\<open>firstN(1)\<close> slices from the cursor,
  which is past the only element, and returns nothing. On the full buffer of capacity 3
  that holds 2, 3, 4, a request for 4 elements returns 4 elements, one of them twice.
\<close>

theorem C3_firstN_lastN_diverge:
  "RingBuffer 3 = Inr (fresh 3)
   \<and> fst (toArray (add [1::nat] (fresh 3))) = [Some 1]
   \<and> fst (firstN 1 (add [1::nat] (fresh 3))) = []
   \<and> fst (toArray (add [1, 2, 3, 4::nat] (fresh 3))) = [Some 2, Some 3, Some 4]
   \<and> fst (firstN 4 (add [1, 2, 3, 4::nat] (fresh 3))) = [Some 2, Some 3, Some 4, Some 2]
   \<and> fst (lastN 4 (add [1, 2, 3, 4::nat] (fresh 3))) = [Some 4, Some 2, Some 3, Some 4]"
  by (simp add: rb_defs js_defs)

section \<open>Overwriting the oldest elements\<close>

text \<open>
  Claim C4: for every capacity \<open>c \<ge> 1\<close> and every \<open>k\<close>, after constructing a buffer
  of capacity \<open>c\<close> and adding \<open>c + k\<close> elements in order, \<^verbatim>\<open>toArray()\<close> is the list
  of the last \<open>c\<close> of them, oldest first. The elements may come in any number of calls of
  \<^verbatim>\<open>add\<close>: \<open>calls\<close> lists the arguments of the successive calls.
\<close>

theorem C4_overwrite_order:
  assumes "1 \<le> c" and "length (concat calls) = nat c + k"
  shows "RingBuffer c = Inr (fresh c)
         \<and> fst (toArray (foldl (\<lambda>r items. add items r) (fresh c) calls))
             = map Some (drop k (concat calls))"
proof -
  have empty: "fst (toArray (fresh c :: 'a ring_buffer)) = []"
    by (simp add: toArray_def slice_from_def slice_def new_array_def)
  have "rb_inv (fresh c :: 'a ring_buffer)" and "0 < size (fresh c :: 'a ring_buffer)"
    using assms(1) by (simp_all add: rb_inv_fresh)
  then have "fst (toArray (add (concat calls) (fresh c)))
        = drop (length (fst (toArray (fresh c :: 'a ring_buffer))) + length (concat calls)
                  - nat (size (fresh c :: 'a ring_buffer)))
            (fst (toArray (fresh c)) @ map Some (concat calls))"
    by (rule toArray_add)
  then have "fst (toArray (add (concat calls) (fresh c)))
        = drop (length (concat calls) - nat c) (map Some (concat calls))"
    by (simp add: empty)
  then show ?thesis
    using assms by (simp add: add_calls_concat RingBuffer_def drop_map)
qed

text \<open>C4 at capacity 3, with five elements added in three calls.\<close>

theorem C4_overwrite_order_witness:
  "(1::int) \<le> 3 \<and> length (concat [[10, 11, 12::nat], [13], [14]]) = nat 3 + 2
   \<and> RingBuffer 3 = Inr (fresh 3 :: nat ring_buffer)
   \<and> fst (toArray (foldl (\<lambda>r items. add items r) (fresh 3) [[10, 11, 12::nat], [13], [14]]))
       = [Some 12, Some 13, Some 14]"
  using C4_overwrite_order [of 3 "[[10, 11, 12::nat], [13], [14]]" 2] by simp

section \<open>Import and export\<close>

text \<open>
  Claim C5: for every buffer of capacity \<open>c\<close> and every sequence \<open>S\<close> no longer than
  \<open>c\<close>, \<^verbatim>\<open>fromArray(S)\<close> without resize followed by \<^verbatim>\<open>toArray()\<close> yields \<open>S\<close>, in
  the same order.

  For a positive capacity the code does this in every state (\<open>fromArray_toArray_positive\<close>).
  For capacity 0 the only such \<open>S\<close> is the empty sequence, and the round trip depends on the
  storage being empty. \<^verbatim>\<open>add\<close> has no guard for size 0, so after
  \<^verbatim>\<open>new RingBuffer(0)\<close> and \<^verbatim>\<open>add(1)\<close> the storage holds 1; \<^verbatim>\<open>fromArray([])\<close>, which
  its doc comment says overwrites, returns at once for size 0, and \<^verbatim>\<open>toArray()\<close> still
  yields 1.
\<close>

theorem C5_fromArray_after_add_zero_capacity:
  "RingBuffer 0 = Inr (fresh 0)
   \<and> size (add [1::nat] (fresh 0)) = 0
   \<and> int (length ([] :: nat option list)) \<le> size (add [1::nat] (fresh 0))
   \<and> elems (buffer (add [1::nat] (fresh 0))) = [Some 1]
   \<and> fst (fromArray (Array []) False (add [1::nat] (fresh 0))) = None
   \<and> fst (toArray (snd (fromArray (Array []) False (add [1::nat] (fresh 0))))) = [Some 1]"
  by (simp add: rb_defs js_defs)

section \<open>Resizing\<close>

text \<open>
  Claim C6: in every reachable state with content \<open>L\<close> and for every new capacity
  \<open>n > 0\<close>, \<^verbatim>\<open>resize(n)\<close> succeeds and makes \<open>n\<close> the capacity; afterwards
  \<^verbatim>\<open>toArray()\<close> is \<open>L\<close> if \<open>n\<close> is at least the length of \<open>L\<close>, and the last \<open>n\<close>
  elements of \<open>L\<close> otherwise.
\<close>

theorem C6_resize_content:
  assumes "reachable rb" and "0 < n"
  shows "fst (resize n rb) = None
         \<and> size (snd (resize n rb)) = n
         \<and> fst (toArray (snd (resize n rb)))
             = (if int (length (fst (toArray rb))) \<le> n then fst (toArray rb)
                else drop (length (fst (toArray rb)) - nat n) (fst (toArray rb)))"
proof (cases "n = size rb")
  case True
  have inv: "rb_inv rb" by (rule reachable_inv [OF assms(1)])
  have "int (length (fst (toArray rb))) \<le> n"
    using rb_inv_length_le [OF inv] length_toArray_inv [OF inv] True assms(2) by simp
  then show ?thesis
    using True assms(2) by (simp add: resize.simps)
next
  case False
  have inv: "rb_inv rb" by (rule reachable_inv [OF assms(1)])
  note ch = resize_changes [OF inv assms(2) False]
  have "fst (toArray (snd (resize n rb))) = elems (buffer (snd (resize n rb)))"
  proof (rule toArray_linear [OF ch(4) assms(2)])
    show "int (length (elems (buffer (snd (resize n rb))))) \<le> n"
      using assms(2) by (simp add: ch(3))
  qed
  then show ?thesis
    by (simp add: ch)
qed

text \<open>C6 at the buffer of capacity 5 holding 1 to 5, resized to 3.\<close>

theorem C6_resize_content_witness:
  "reachable (add [1, 2, 3, 4, 5::nat] (fresh 5)) \<and> (0::int) < 3
   \<and> fst (toArray (add [1, 2, 3, 4, 5::nat] (fresh 5)))
       = [Some 1, Some 2, Some 3, Some 4, Some 5]
   \<and> fst (resize 3 (add [1, 2, 3, 4, 5::nat] (fresh 5))) = None
   \<and> size (snd (resize 3 (add [1, 2, 3, 4, 5::nat] (fresh 5)))) = 3
   \<and> fst (toArray (snd (resize 3 (add [1, 2, 3, 4, 5::nat] (fresh 5)))))
       = [Some 3, Some 4, Some 5]"
proof -
  have r: "reachable (add [1, 2, 3, 4, 5::nat] (fresh 5))"
    by (rule reachable.after_add, rule reachable.constructed [of 5])
      (simp add: RingBuffer_def)
  have t: "fst (toArray (add [1, 2, 3, 4, 5::nat] (fresh 5)))
           = [Some 1, Some 2, Some 3, Some 4, Some 5]"
    by (simp add: rb_defs js_defs)
  show ?thesis
    using r t C6_resize_content [OF r, of 3] by simp
qed

section \<open>Removal at an index out of range\<close>

text \<open>
  Claim C7: for an index whose remapped value lies outside \<open>[0, storedLength)\<close>,
  \<^verbatim>\<open>remove(index, count)\<close> returns an empty sequence and leaves storage, cursor and
  capacity as they were, raising no error.

  The guard of \<^verbatim>\<open>remove\<close> is the one of \<^verbatim>\<open>get\<close>: the index equal to the stored length
  passes it. Nothing is removed there, but the content is imported again, which moves the
  storage and the cursor: the full buffer with storage 4, 2, 3 and cursor 1 becomes the
  storage 2, 3, 4 with cursor 0.
\<close>

theorem C7_remove_at_length:
  "RingBuffer 3 = Inr (fresh 3)
   \<and> elems (buffer (add [1, 2, 3, 4::nat] (fresh 3))) = [Some 4, Some 2, Some 3]
   \<and> pos (add [1, 2, 3, 4::nat] (fresh 3)) = Num 1
   \<and> fst (remove 3 1 (add [1, 2, 3, 4::nat] (fresh 3))) = Inr []
   \<and> elems (buffer (snd (remove 3 1 (add [1, 2, 3, 4::nat] (fresh 3)))))
       = [Some 2, Some 3, Some 4]
   \<and> pos (snd (remove 3 1 (add [1, 2, 3, 4::nat] (fresh 3)))) = Num 0"
  by (simp add: rb_defs js_defs)

section \<open>Negative sizes\<close>

text \<open>
  Claim C8: constructing a buffer with a negative capacity fails with a RangeError, and so
  does \<^verbatim>\<open>resize\<close> with a negative new capacity, which leaves capacity, storage and
  cursor of the buffer as they were.
\<close>

theorem C8_negative_size:
  "n < 0 \<Longrightarrow> RingBuffer n = Inl RangeError \<and> resize n rb = (Some RangeError, rb)"
  by (simp add: RingBuffer_def resize.simps)

text \<open>C8 at size \<open>-1\<close>, on the buffer of capacity 3 that holds 1.\<close>

theorem C8_negative_size_witness:
  "(- 1 :: int) < 0 \<and> (RingBuffer (- 1) :: error + nat ring_buffer) = Inl RangeError
   \<and> resize (- 1) (add [1::nat] (fresh 3)) = (Some RangeError, add [1] (fresh 3))"
  using C8_negative_size [of "- 1" "add [1::nat] (fresh 3)"] by simp

section \<open>The stored length under add\<close>

text \<open>
  Claim C9: for every capacity \<open>c \<ge> 1\<close> and after every sequence of calls of
  \<^verbatim>\<open>add\<close> on a fresh buffer of capacity \<open>c\<close>, the stored length is at most \<open>c\<close>, and
  once it is \<open>c\<close>, a further \<^verbatim>\<open>add\<close> keeps it at \<open>c\<close>.
\<close>

theorem C9_stored_length_bounded:
  assumes "1 \<le> c" and "rb = foldl (\<lambda>r items. add items r) (fresh c) calls"
  shows "RingBuffer c = Inr (fresh c)
         \<and> fst (getBufferLength rb) \<le> c
         \<and> (fst (getBufferLength rb) = c \<longrightarrow> fst (getBufferLength (add items rb)) = c)"
proof -
  have inv: "rb_inv rb" and sz: "size rb = c"
    using assms by (simp_all add: rb_inv_add_calls rb_inv_fresh size_add_calls)
  have "int (length (elems (buffer rb))) \<le> c"
    using rb_inv_length_le [OF inv] sz assms(1) by simp
  moreover have "int (length (elems (buffer (add items rb)))) = c"
    if "int (length (elems (buffer rb))) = c"
    using full_add [OF inv, of items] sz assms(1) that by simp
  ultimately show ?thesis
    using assms(1) by (simp add: getBufferLength_def RingBuffer_def)
qed

text \<open>C9 at capacity 2: three elements in two calls fill the buffer, two more keep it full.\<close>

theorem C9_stored_length_bounded_witness:
  "(1::int) \<le> 2
   \<and> RingBuffer 2 = Inr (fresh 2 :: nat ring_buffer)
   \<and> fst (getBufferLength (foldl (\<lambda>r items. add items r) (fresh 2) [[1::nat], [2, 3]])) \<le> 2
   \<and> fst (getBufferLength (foldl (\<lambda>r items. add items r) (fresh 2) [[1::nat], [2, 3]])) = 2
   \<and> fst (getBufferLength (add [4, 5] (foldl (\<lambda>r items. add items r) (fresh 2) [[1::nat], [2, 3]]))) = 2"
  using C9_stored_length_bounded [of 2 "foldl (\<lambda>r items. add items r) (fresh 2) [[1::nat], [2, 3]]"
      "[[1::nat], [2, 3]]" "[4, 5]"]
  by (simp add: rb_defs js_defs)

section \<open>Read accessors\<close>

text \<open>
  Claim C10: the read accessors \<^verbatim>\<open>get\<close>, \<^verbatim>\<open>getFirst\<close>, \<^verbatim>\<open>getLast\<close>, \<^verbatim>\<open>toArray\<close>,
  \<^verbatim>\<open>firstN\<close>, \<^verbatim>\<open>lastN\<close>, \<^verbatim>\<open>getSize\<close>, \<^verbatim>\<open>getPos\<close>, \<^verbatim>\<open>getBufferLength\<close>,
  \<^verbatim>\<open>isFull\<close> and \<^verbatim>\<open>isEmpty\<close> leave storage, cursor and capacity unchanged, in every
  state and for every argument.
\<close>

theorem C10_accessors_frame:
  "snd (get i rb) = rb \<and> snd (getFirst rb) = rb \<and> snd (getLast rb) = rb
   \<and> snd (toArray rb) = rb \<and> snd (firstN n rb) = rb \<and> snd (lastN n rb) = rb
   \<and> snd (getSize rb) = rb \<and> snd (getPos rb) = rb \<and> snd (getBufferLength rb) = rb
   \<and> snd (isFull rb) = rb \<and> snd (isEmpty rb) = rb"
  by (simp add: get_def getFirst_def getLast_def toArray_def firstN_def lastN_def
      getSize_def getPos_def getBufferLength_def isFull_def isEmpty_def Let_def)

end
